theory Spec2Isabelle
  imports Main
begin

section \<open>JavaScript values as the module documentation delivers them\<close>

text \<open>
  \<open>list-stable-modules.js\<close> works on the result of \<open>JSON.parse\<close>: null, booleans,
  numbers, strings, arrays and objects, and on \<open>undefined\<close>, which every missing
  property reads as. Numbers are integers (the stability index is an integer from 0 to
  5); \<open>to_string\<close> below prints them in plain decimal, which is what the language does
  for the integers of magnitude below \<open>2 ^ 53\<close> (\<open>plain_numbers\<close>), so a statement that
  depends on the printed form of a number is made for those. Strings are over the
  characters below 256, one \<open>char\<close> for one code unit. An object is the list of its own
  properties; a lookup takes the first entry of a name.
\<close>

datatype jsval =
    JUndefined
  | JNull
  | JBool bool
  | JNum int
  | JStr string
  | JArr "jsval list"
  | JObj "(string \<times> jsval) list"

datatype js_error = TypeError | SyntaxError

definition bindE :: "js_error + 'a \<Rightarrow> ('a \<Rightarrow> js_error + 'b) \<Rightarrow> js_error + 'b" where
  "bindE m f = (case m of Inl e \<Rightarrow> Inl e | Inr v \<Rightarrow> f v)"

subsection \<open>ToString\<close>

definition digit_char :: "nat \<Rightarrow> char" where
  "digit_char d = ''0123456789'' ! d"

fun string_of_nat :: "nat \<Rightarrow> string" where
  "string_of_nat n =
     (if n < 10 then [digit_char n] else string_of_nat (n div 10) @ [digit_char (n mod 10)])"

definition string_of_int :: "int \<Rightarrow> string" where
  "string_of_int i = (if i < 0 then CHR ''-'' # string_of_nat (nat (- i)) else string_of_nat (nat i))"

fun join_comma :: "string list \<Rightarrow> string" where
  "join_comma [] = []"
| "join_comma [s] = s"
| "join_comma (s # t # ss) = s @ '','' @ join_comma (t # ss)"

text \<open>
  \<open>ToString\<close> of the language, which \<open>exec\<close> applies to its argument and a property
  access to its key. An array is its elements joined by commas, where \<open>null\<close> and
  \<open>undefined\<close> elements give the empty string. A plain object is \<open>[object Object]\<close>,
  by the \<open>toString\<close> it inherits; when the object has a property \<open>toString\<close> of its
  own (in parsed JSON never a function), neither that nor \<open>valueOf\<close> gives a primitive
  value and the conversion throws a TypeError.
\<close>

fun to_string :: "jsval \<Rightarrow> js_error + string"
  and join_elems :: "jsval list \<Rightarrow> js_error + string list" where
  "to_string JUndefined = Inr ''undefined''"
| "to_string JNull = Inr ''null''"
| "to_string (JBool b) = Inr (if b then ''true'' else ''false'')"
| "to_string (JNum n) = Inr (string_of_int n)"
| "to_string (JStr s) = Inr s"
| "to_string (JArr xs) =
     (case join_elems xs of Inl e \<Rightarrow> Inl e | Inr ss \<Rightarrow> Inr (join_comma ss))"
| "to_string (JObj kvs) =
     (if map_of kvs ''toString'' = None then Inr ''[object Object]'' else Inl TypeError)"
| "join_elems [] = Inr []"
| "join_elems (x # xs) =
     (case (if x = JUndefined \<or> x = JNull then Inr [] else to_string x) of
        Inl e \<Rightarrow> Inl e
      | Inr s \<Rightarrow> (case join_elems xs of Inl e \<Rightarrow> Inl e | Inr ss \<Rightarrow> Inr (s # ss)))"

text \<open>
  The values whose conversion to a string prints safe integers only: the numbers of
  magnitude below \<open>2 ^ 53\<close>, which a double holds exactly and the language prints digit
  by digit (from \<open>10 ^ 21\<close> on it prints an exponent, and above \<open>2 ^ 53\<close> not every
  integer is a number at all). The conversion of an array prints its elements; that of an
  object prints none of its contents.
\<close>

fun plain_numbers :: "jsval \<Rightarrow> bool" where
  "plain_numbers (JNum n) = (\<bar>n\<bar> < 2 ^ 53)"
| "plain_numbers (JArr xs) = (\<forall>x \<in> set xs. plain_numbers x)"
| "plain_numbers v = True"

subsection \<open>Property access\<close>

text \<open>
  \<open>v.name\<close> for the names the program reads (\<open>source\<close>, \<open>stability\<close>, \<open>miscs\<close>,
  \<open>modules\<close>, \<open>globals\<close>, \<open>desc\<close>): none of them is built in or inherited, so only an
  object can have one; on \<open>undefined\<close> and \<open>null\<close> the access throws a TypeError.
\<close>

fun get_prop :: "jsval \<Rightarrow> string \<Rightarrow> js_error + jsval" where
  "get_prop JUndefined k = Inl TypeError"
| "get_prop JNull k = Inl TypeError"
| "get_prop (JObj kvs) k = (case map_of kvs k of Some v \<Rightarrow> Inr v | None \<Rightarrow> Inr JUndefined)"
| "get_prop v k = Inr JUndefined"

text \<open>\<open>v[i]\<close> for a literal index \<open>i\<close>.\<close>

fun get_index :: "jsval \<Rightarrow> nat \<Rightarrow> js_error + jsval" where
  "get_index JUndefined i = Inl TypeError"
| "get_index JNull i = Inl TypeError"
| "get_index (JArr xs) i = (if i < length xs then Inr (xs ! i) else Inr JUndefined)"
| "get_index (JStr s) i = (if i < length s then Inr (JStr [s ! i]) else Inr JUndefined)"
| "get_index (JObj kvs) i = get_prop (JObj kvs) (string_of_nat i)"
| "get_index v i = Inr JUndefined"

text \<open>
  \<open>uu.has(obj, key)\<close>: \<open>hasOwnProperty\<close>. The program calls it on \<open>mod_data\<close> after
  \<open>mod_data.source\<close> has given a module name, that is on objects only.
\<close>

fun has :: "jsval \<Rightarrow> string \<Rightarrow> bool" where
  "has (JObj kvs) k = (map_of kvs k \<noteq> None)"
| "has v k = False"

subsection \<open>The three regular expressions\<close>

definition is_digit :: "char \<Rightarrow> bool" where
  "is_digit c = (c \<in> set ''0123456789'')"

definition is_word :: "char \<Rightarrow> bool" where
  "is_word c =
     (c \<in> set ''abcdefghijklmnopqrstuvwxyzABCDEFGHIJKLMNOPQRSTUVWXYZ0123456789_'')"

text \<open>\<open>/crypto/.test(s)\<close>: the text occurs somewhere in \<open>s\<close>.\<close>

fun crypto_regex_test :: "string \<Rightarrow> bool" where
  "crypto_regex_test [] = False"
| "crypto_regex_test (c # s) = (take 6 (c # s) = ''crypto'' \<or> crypto_regex_test s)"

text \<open>
  \<open>/Stability: (\\d)/.exec(s)\<close>: the digit captured at the leftmost match, or \<open>None\<close>
  for \<open>null\<close>.
\<close>

fun stability_regex_exec :: "string \<Rightarrow> string option" where
  "stability_regex_exec [] = None"
| "stability_regex_exec (c # s) =
     (if take 11 (c # s) = ''Stability: '' \<and> 11 < length (c # s) \<and> is_digit ((c # s) ! 11)
      then Some [(c # s) ! 11]
      else stability_regex_exec s)"

text \<open>
  \<open>/doc\\/api\\/(\\w+).markdown/.exec(s)\<close>. The dot is not escaped: it stands for any
  character but a line terminator. \<open>\\w+\<close> is greedy and gives characters back one at a
  time until the rest matches.
\<close>

definition dot_markdown :: "string \<Rightarrow> bool" where
  "dot_markdown s =
     (case s of [] \<Rightarrow> False
      | c # t \<Rightarrow> c \<noteq> CHR 0x0A \<and> c \<noteq> CHR 0x0D \<and> take 8 t = ''markdown'')"

fun backtrack :: "string \<Rightarrow> nat \<Rightarrow> string option" where
  "backtrack rest 0 = None"
| "backtrack rest (Suc k) =
     (if dot_markdown (drop (Suc k) rest) then Some (take (Suc k) rest) else backtrack rest k)"

definition name_at :: "string \<Rightarrow> string option" where
  "name_at s =
     (if take 8 s = ''doc/api/''
      then backtrack (drop 8 s) (length (takeWhile is_word (drop 8 s)))
      else None)"

fun name_regex_exec :: "string \<Rightarrow> string option" where
  "name_regex_exec [] = None"
| "name_regex_exec (c # s) =
     (case name_at (c # s) of Some m \<Rightarrow> Some m | None \<Rightarrow> name_regex_exec s)"

text \<open>
  \<open>parseInt(stmp, 10)\<close> on the captured text, which is one decimal digit: the value
  of the leading digits.
\<close>

definition digit_val :: "char \<Rightarrow> int" where
  "digit_val c = int (of_char c) - 48"

definition parseInt :: "string \<Rightarrow> int" where
  "parseInt s = foldl (\<lambda>a c. 10 * a + digit_val c) 0 (takeWhile is_digit s)"

section \<open>Parsing a module's data: \<open>mod_data2modname_stability\<close>\<close>

record modname_stability =
  modname :: string
  stability :: jsval

text \<open>
  The right-hand sides of the branches of the \<open>try\<close> block, each under its own name;
  an exception is \<open>Inl\<close>. \<open>crypto_rule\<close> is
  \<open>parseInt(stability_regex.exec(mod_data.modules[0].desc)[1], 10)\<close>, where indexing the
  \<open>null\<close> of a failed match throws.
\<close>

definition crypto_rule :: "jsval \<Rightarrow> js_error + jsval" where
  "crypto_rule mod_data =
     bindE (get_prop mod_data ''modules'') (\<lambda>ms.
     bindE (get_index ms 0) (\<lambda>m0.
     bindE (get_prop m0 ''desc'') (\<lambda>d.
     bindE (to_string d) (\<lambda>s.
       case stability_regex_exec s of
         None \<Rightarrow> Inl TypeError
       | Some stmp \<Rightarrow> Inr (JNum (parseInt stmp))))))"

definition miscs_rule :: "jsval \<Rightarrow> js_error + jsval" where
  "miscs_rule mod_data =
     bindE (get_prop mod_data ''miscs'') (\<lambda>a.
     bindE (get_index a 0) (\<lambda>b.
     bindE (get_prop b ''miscs'') (\<lambda>c.
     bindE (get_index c 1) (\<lambda>d.
       get_prop d ''stability''))))"

definition modules_rule :: "jsval \<Rightarrow> js_error + jsval" where
  "modules_rule mod_data =
     bindE (get_prop mod_data ''modules'') (\<lambda>a.
     bindE (get_index a 0) (\<lambda>b.
       get_prop b ''stability''))"

definition globals_rule :: "jsval \<Rightarrow> js_error + jsval" where
  "globals_rule mod_data =
     bindE (get_prop mod_data ''globals'') (\<lambda>a.
     bindE (get_index a 0) (\<lambda>b.
       get_prop b ''stability''))"

text \<open>The \<open>if\<close> chain of the \<open>try\<close> block, in the order of the source.\<close>

definition stability_try :: "jsval \<Rightarrow> string \<Rightarrow> js_error + jsval" where
  "stability_try mod_data nm =
     (if crypto_regex_test nm then crypto_rule mod_data
      else if has mod_data ''stability'' then get_prop mod_data ''stability''
      else if has mod_data ''miscs'' then miscs_rule mod_data
      else if has mod_data ''modules'' then modules_rule mod_data
      else if has mod_data ''globals'' then globals_rule mod_data
      else Inr JUndefined)"

text \<open>\<open>catch(e) { stability = undefined; }\<close>\<close>

definition caught :: "js_error + jsval \<Rightarrow> jsval" where
  "caught r = (case r of Inl e \<Rightarrow> JUndefined | Inr v \<Rightarrow> v)"

text \<open>
  The function itself. The module name is read before the \<open>try\<close> block:
  \<open>name_regex.exec(mod_data.source)[1]\<close> throws when \<open>mod_data\<close> is \<open>null\<close> and when
  the expression does not match (\<open>exec\<close> gives \<open>null\<close>), and when \<open>mod_data.source\<close>
  cannot be converted to a string. The \<open>catch\<close> turns every exception of the block into
  \<open>undefined\<close>.
\<close>

definition mod_data2modname_stability :: "jsval \<Rightarrow> js_error + modname_stability" where
  "mod_data2modname_stability mod_data =
     bindE (get_prop mod_data ''source'') (\<lambda>src.
     bindE (to_string src) (\<lambda>s.
       case name_regex_exec s of
         None \<Rightarrow> Inl TypeError
       | Some nm \<Rightarrow> Inr \<lparr>modname = nm, stability = caught (stability_try mod_data nm)\<rparr>))"

section \<open>Grouping module names by stability: \<open>mod_datas2stability_to_names\<close>\<close>

text \<open>
  \<open>stability_to_names\<close> is a plain object used as a dictionary: a map from property names
  to lists of module names. A property name is the \<open>ToString\<close> of the value used as key;
  where that conversion throws, so do \<open>uu.has\<close> and the access.
\<close>

definition prop_key :: "modname_stability \<Rightarrow> js_error + string" where
  "prop_key ms = to_string (stability ms)"

text \<open>
  \<open>obj[key] = v\<close> on a plain object. The name \<open>__proto__\<close> is the accessor inherited from
  \<open>Object.prototype\<close>: assigning an array to it replaces the prototype of \<open>obj\<close> and
  creates no own property, so \<open>hasOwnProperty\<close> stays false for it and
  \<open>JSON.stringify\<close> does not print it.
\<close>

definition assign :: "(string \<rightharpoonup> 'v) \<Rightarrow> string \<Rightarrow> 'v \<Rightarrow> (string \<rightharpoonup> 'v)" where
  "assign obj key v = (if key = ''__proto__'' then obj else obj(key \<mapsto> v))"

text \<open>The body of the \<open>for\<close> loop: \<open>push\<close> when \<open>uu.has\<close> finds the key, a new list otherwise.\<close>

definition group_step ::
  "(string \<rightharpoonup> string list) \<Rightarrow> modname_stability \<Rightarrow> js_error + (string \<rightharpoonup> string list)" where
  "group_step stability_to_names ms =
     (let nm = modname ms
      in bindE (prop_key ms) (\<lambda>key.
           case stability_to_names key of
             Some names \<Rightarrow> Inr (stability_to_names(key \<mapsto> names @ [nm]))
           | None \<Rightarrow> Inr (assign stability_to_names key [nm])))"

text \<open>The loop, over the indices of the array in ascending order.\<close>

fun group_loop ::
  "(string \<rightharpoonup> string list) \<Rightarrow> modname_stability list \<Rightarrow> js_error + (string \<rightharpoonup> string list)" where
  "group_loop stability_to_names [] = Inr stability_to_names"
| "group_loop stability_to_names (ms # rest) =
     (case group_step stability_to_names ms of
        Inl e \<Rightarrow> Inl e
      | Inr stability_to_names' \<Rightarrow> group_loop stability_to_names' rest)"

text \<open>\<open>var stability_to_names = {}\<close>, then the loop.\<close>

definition group_names :: "modname_stability list \<Rightarrow> js_error + (string \<rightharpoonup> string list)" where
  "group_names xs = group_loop Map.empty xs"

text \<open>\<open>uu.map\<close> with a function that may throw: the first exception ends the call.\<close>

fun uu_map :: "('a \<Rightarrow> js_error + 'b) \<Rightarrow> 'a list \<Rightarrow> js_error + 'b list" where
  "uu_map f [] = Inr []"
| "uu_map f (x # xs) =
     (case f x of
        Inl e \<Rightarrow> Inl e
      | Inr y \<Rightarrow> (case uu_map f xs of Inl e \<Rightarrow> Inl e | Inr ys \<Rightarrow> Inr (y # ys)))"

text \<open>
  The function assigns \<open>modname_stabilities\<close> without \<open>var\<close>: it is a global variable, which
  outlives the call. \<open>DEBUG\<close> is \<open>false\<close>, so \<open>log\<close> and \<open>save\<close> do nothing. The second
  component of the result is what the callback receives (\<open>cb(null, stability_to_names)\<close>),
  or the exception that left the function.
\<close>

record globals =
  modname_stabilities :: "modname_stability list option"

definition mod_datas2stability_to_names ::
  "globals \<Rightarrow> jsval list \<Rightarrow> globals \<times> (js_error + (string \<rightharpoonup> string list))" where
  "mod_datas2stability_to_names g mod_datas =
     (case uu_map mod_data2modname_stability mod_datas of
        Inl e \<Rightarrow> (g, Inl e)
      | Inr xs \<Rightarrow> (g\<lparr>modname_stabilities := Some xs\<rparr>, group_names xs))"

section \<open>Downloading one module: \<open>mod_url2mod_data\<close>\<close>

text \<open>
  What \<open>request\<close> hands to the response handler: \<open>err\<close> (here: whether it is set),
  the status code and the body.
\<close>

record response =
  err :: bool
  statusCode :: int
  body :: string

text \<open>
  What a task does with the callback it is given: it invokes it with a result
  (\<open>cb(null, r)\<close>), it never invokes it, or it throws before it does.
\<close>

datatype 'r task = Returns 'r | Silent | Raises js_error

text \<open>
  \<open>request\<close> is the stubbed fetcher and \<open>JSON_parse\<close> the parser of the platform, which
  throws a SyntaxError on a malformed text. The handler has no \<open>else\<close> branch.
\<close>

definition mod_url2mod_data ::
  "(string \<Rightarrow> js_error + jsval) \<Rightarrow> (string \<Rightarrow> response) \<Rightarrow> string \<Rightarrow> jsval task" where
  "mod_url2mod_data JSON_parse request mod_url =
     (let r = request mod_url
      in if \<not> err r \<and> statusCode r = 200 then
           (case JSON_parse (body r) of
              Inl e \<Rightarrow> Raises e
            | Inr mod_data \<Rightarrow> Returns mod_data)
         else Silent)"

section \<open>The bounded executor\<close>

text \<open>
  Modelled from the spec: \<open>async.mapLimit\<close>, the bounded executor that
  \<open>mod_urls2mod_datas\<close> calls, belongs to the \<open>async\<close> library, which is not among the
  sources. The state is the one of the algorithm of section 4.3: the queue of unstarted
  tasks (FIFO by submission index), the tasks in flight, and the pre-sized results array.
\<close>

record 'r executor =
  pending :: "nat list"
  in_flight :: "nat list"
  results :: "'r option list"

datatype exec_error = InvalidConfig | Uncaught js_error

text \<open>
  Modelled from the spec: while a slot of the pool of \<open>C\<close> is free, the next unstarted
  task is dispatched.
\<close>

definition fill :: "nat \<Rightarrow> 'r executor \<Rightarrow> 'r executor" where
  "fill C st =
     (let k = min (C - length (in_flight st)) (length (pending st))
      in st\<lparr>in_flight := in_flight st @ take k (pending st), pending := drop k (pending st)\<rparr>)"

text \<open>Modelled from the spec: the start, with \<open>n\<close> tasks submitted and no result yet.\<close>

definition start :: "nat \<Rightarrow> nat \<Rightarrow> 'r executor" where
  "start C n = fill C \<lparr>pending = [0..<n], in_flight = [], results = replicate n None\<rparr>"

text \<open>
  Modelled from the spec: task \<open>i\<close> delivers its result, which is recorded at its index;
  its slot is free again.
\<close>

definition deliver :: "nat \<Rightarrow> 'r executor \<Rightarrow> nat \<Rightarrow> 'r \<Rightarrow> 'r executor" where
  "deliver C st i r =
     fill C (st\<lparr>in_flight := remove1 i (in_flight st), results := (results st)[i := Some r]\<rparr>)"

text \<open>
  Modelled from the spec: the completion order is not determined, so a run is driven by a
  schedule, the list of the tasks in the order in which their fetches come back. An entry
  for a task that is not in flight is of no effect; a task that never invokes its callback
  keeps its slot; an exception in a handler is caught by nobody and ends the process.
\<close>

fun run :: "nat \<Rightarrow> 'r task list \<Rightarrow> 'r executor \<Rightarrow> nat list \<Rightarrow> exec_error + 'r executor" where
  "run C tasks st [] = Inr st"
| "run C tasks st (i # sched) =
     (if i \<in> set (in_flight st) \<and> i < length tasks then
        (case tasks ! i of
           Returns r \<Rightarrow> run C tasks (deliver C st i r) sched
         | Silent \<Rightarrow> run C tasks st sched
         | Raises e \<Rightarrow> Inl (Uncaught e))
      else run C tasks st sched)"

text \<open>Modelled from the spec: a ceiling of zero is the error \<open>InvalidConfig\<close>.\<close>

definition bounded_executor ::
  "nat \<Rightarrow> 'r task list \<Rightarrow> nat list \<Rightarrow> exec_error + 'r executor" where
  "bounded_executor C tasks sched =
     (if C = 0 then Inl InvalidConfig else run C tasks (start C (length tasks)) sched)"

text \<open>
  Modelled from the spec: completion is signalled only when the results array is fully
  populated; the completion callback then receives the array.
\<close>

definition signalled :: "'r executor \<Rightarrow> bool" where
  "signalled st = (None \<notin> set (results st))"

definition returned :: "'r executor \<Rightarrow> 'r list" where
  "returned st = map the (results st)"

text \<open>\<open>mod_urls2mod_datas\<close> of the source: the executor with the ceiling of the source.\<close>

definition NUM_SIMULTANEOUS_DOWNLOADS :: nat where
  "NUM_SIMULTANEOUS_DOWNLOADS = 36"

definition mod_urls2mod_datas ::
  "(string \<Rightarrow> js_error + jsval) \<Rightarrow> (string \<Rightarrow> response) \<Rightarrow> string list \<Rightarrow> nat list
     \<Rightarrow> exec_error + jsval executor" where
  "mod_urls2mod_datas JSON_parse request mod_urls sched =
     bounded_executor NUM_SIMULTANEOUS_DOWNLOADS
       (map (mod_url2mod_data JSON_parse request) mod_urls) sched"

text \<open>Invariants of the executor, for the proofs below.\<close>

definition slots_ok :: "'r task list \<Rightarrow> nat \<Rightarrow> 'r executor \<Rightarrow> bool" where
  "slots_ok tasks k st \<longleftrightarrow>
     (\<forall>i<length tasks.
        (i < k \<and> i \<notin> set (in_flight st) \<longrightarrow>
           tasks ! i = Returns (the (results st ! i)) \<and> results st ! i \<noteq> None) \<and>
        (\<not> (i < k \<and> i \<notin> set (in_flight st)) \<longrightarrow> results st ! i = None))"

definition inv0 :: "'r task list \<Rightarrow> 'r executor \<Rightarrow> bool" where
  "inv0 tasks st \<longleftrightarrow>
     length (results st) = length tasks \<and> distinct (in_flight st) \<and>
     (\<exists>k\<le>length tasks. pending st = [k..<length tasks] \<and> set (in_flight st) \<subseteq> {..<k} \<and>
        slots_ok tasks k st)"

definition saturated :: "nat \<Rightarrow> 'r executor \<Rightarrow> bool" where
  "saturated C st \<longleftrightarrow> length (in_flight st) = C \<or> pending st = []"

section \<open>The executor keeps its invariants\<close>

lemma fill_inv0:
  assumes "inv0 tasks st"
  shows "inv0 tasks (fill C st)"
proof -
  let ?n = "length tasks"
  from assms obtain k where k: "k \<le> ?n" "pending st = [k..<?n]" "set (in_flight st) \<subseteq> {..<k}"
    and res: "slots_ok tasks k st"
    and len: "length (results st) = ?n" and dist: "distinct (in_flight st)"
    unfolding inv0_def by blast
  define j where "j = min (C - length (in_flight st)) (length (pending st))"
  have j: "k + j \<le> ?n" using k by (simp add: j_def)
  have tk: "take j (pending st) = [k..<k + j]" using k j by (simp add: take_upt)
  have dr: "drop j (pending st) = [k + j..<?n]" using k j by (simp add: drop_upt)
  have f: "fill C st = st\<lparr>in_flight := in_flight st @ [k..<k + j], pending := [k + j..<?n]\<rparr>"
    by (simp add: fill_def Let_def j_def[symmetric] tk dr)
  have 1: "length (results (fill C st)) = ?n" by (simp add: f len)
  have 2: "distinct (in_flight (fill C st))" using dist k(3) by (auto simp: f)
  have 3: "pending (fill C st) = [k + j..<?n]" by (simp add: f)
  have 4: "set (in_flight (fill C st)) \<subseteq> {..<k + j}" using k(3) by (auto simp: f)
  have 5: "slots_ok tasks (k + j) (fill C st)"
    using res k(3) unfolding slots_ok_def f by (auto simp: subset_iff)
  show ?thesis unfolding inv0_def using 1 2 3 4 5 j by blast
qed

lemma fill_saturated: "length (in_flight st) \<le> C \<Longrightarrow> saturated C (fill C st)"
  by (auto simp: saturated_def fill_def Let_def min_def)

lemma start_inv0: "inv0 tasks (start C (length tasks))"
  unfolding start_def
  by (rule fill_inv0) (auto simp: inv0_def slots_ok_def intro!: exI[of _ 0])

lemma start_saturated: "saturated C (start C n)"
  unfolding start_def by (rule fill_saturated) simp

lemma update_inv0:
  assumes "inv0 tasks st" and i: "i \<in> set (in_flight st)" "i < length tasks"
    and t: "tasks ! i = Returns r"
  shows "inv0 tasks (st\<lparr>in_flight := remove1 i (in_flight st), results := (results st)[i := Some r]\<rparr>)"
    (is "inv0 tasks ?st'")
proof -
  let ?n = "length tasks"
  from assms obtain k where k: "k \<le> ?n" "pending st = [k..<?n]" "set (in_flight st) \<subseteq> {..<k}"
    and res: "slots_ok tasks k st"
    and len: "length (results st) = ?n" and dist: "distinct (in_flight st)"
    unfolding inv0_def by blast
  have 1: "length (results ?st') = ?n" by (simp add: len)
  have 2: "distinct (in_flight ?st')" using dist by simp
  have 3: "pending ?st' = [k..<?n]" by (simp add: k)
  have 4: "set (in_flight ?st') \<subseteq> {..<k}" using k(3) dist by auto
  have ik: "i < k" using i k(3) by auto
  have 5: "slots_ok tasks k ?st'"
    unfolding slots_ok_def
  proof (intro allI impI)
    fix m assume m: "m < ?n"
    show "(m < k \<and> m \<notin> set (in_flight ?st') \<longrightarrow>
           tasks ! m = Returns (the (results ?st' ! m)) \<and> results ?st' ! m \<noteq> None) \<and>
          (\<not> (m < k \<and> m \<notin> set (in_flight ?st')) \<longrightarrow> results ?st' ! m = None)"
    proof (cases "m = i")
      case True
      then show ?thesis using t i len dist ik by simp
    next
      case False
      then show ?thesis
        using res[unfolded slots_ok_def, rule_format, OF m] dist len by (simp add: nth_list_update)
    qed
  qed
  show ?thesis unfolding inv0_def using 1 2 3 4 5 k(1) by blast
qed

lemma deliver_inv0:
  assumes "inv0 tasks st" "i \<in> set (in_flight st)" "i < length tasks" "tasks ! i = Returns r"
  shows "inv0 tasks (deliver C st i r)"
  unfolding deliver_def by (rule fill_inv0) (rule update_inv0[OF assms])

lemma run_inv0:
  "inv0 tasks st \<Longrightarrow> run C tasks st sched = Inr st' \<Longrightarrow> inv0 tasks st'"
proof (induction sched arbitrary: st)
  case Nil
  then show ?case by simp
next
  case (Cons i sched)
  show ?case
  proof (cases "i \<in> set (in_flight st) \<and> i < length tasks")
    case False
    with Cons.prems(2) have "run C tasks st sched = Inr st'" by auto
    with Cons.IH Cons.prems(1) show ?thesis by blast
  next
    case True
    show ?thesis
    proof (cases "tasks ! i")
      case (Returns r)
      with True Cons.prems(2) have "run C tasks (deliver C st i r) sched = Inr st'" by simp
      moreover have "inv0 tasks (deliver C st i r)"
        using Cons.prems(1) True Returns by (simp add: deliver_inv0)
      ultimately show ?thesis using Cons.IH by blast
    next
      case Silent
      with True Cons.prems(2) have "run C tasks st sched = Inr st'" by simp
      with Cons.IH Cons.prems(1) show ?thesis by blast
    next
      case (Raises e)
      with True Cons.prems(2) show ?thesis by simp
    qed
  qed
qed

lemma inv0_signalled:
  assumes "inv0 tasks st" "signalled st"
  shows "map Returns (returned st) = tasks"
proof -
  from assms(1) have len: "length (results st) = length tasks"
    unfolding inv0_def by (elim conjE)
  from assms(1) obtain k where slots: "slots_ok tasks k st"
    unfolding inv0_def by (elim conjE exE)
  have nth: "map Returns (returned st) ! i = tasks ! i" if i: "i < length tasks" for i
  proof -
    have "results st ! i \<in> set (results st)" using i len by simp
    with assms(2) have nn: "results st ! i \<noteq> None"
      unfolding signalled_def by (cases "results st ! i") simp_all
    from slots i have
      "(i < k \<and> i \<notin> set (in_flight st) \<longrightarrow>
           tasks ! i = Returns (the (results st ! i)) \<and> results st ! i \<noteq> None) \<and>
        (\<not> (i < k \<and> i \<notin> set (in_flight st)) \<longrightarrow> results st ! i = None)"
      unfolding slots_ok_def by (elim allE[of _ i] impE)
    with nn have "tasks ! i = Returns (the (results st ! i))"
      by (cases "i < k \<and> i \<notin> set (in_flight st)") simp_all
    moreover have "map Returns (returned st) ! i = Returns (the (results st ! i))"
      unfolding returned_def using i len by simp
    ultimately show ?thesis by simp
  qed
  have len': "length (map Returns (returned st)) = length tasks"
    unfolding returned_def using len by simp
  show ?thesis
  proof (rule nth_equalityI)
    show "length (map Returns (returned st)) = length tasks" by (rule len')
  next
    fix i assume "i < length (map Returns (returned st))"
    then have "i < length tasks" unfolding len' .
    then show "map Returns (returned st) ! i = tasks ! i" by (rule nth)
  qed
qed

lemma all_returns_nth:
  assumes "\<forall>t\<in>set tasks. \<exists>r. t = Returns r" "i < length tasks"
  obtains r where "tasks ! i = Returns r"
proof -
  have "tasks ! i \<in> set tasks" using assms(2) by simp
  with assms(1) have "\<exists>r. tasks ! i = Returns r" by (rule bspec)
  then show ?thesis using that by (elim exE)
qed

lemma fill_bound: "length (in_flight st) \<le> C \<Longrightarrow> length (in_flight (fill C st)) \<le> C"
  by (auto simp: fill_def Let_def min_def)

lemma fill_measure:
  "length (pending (fill C st)) + length (in_flight (fill C st)) =
   length (pending st) + length (in_flight st)"
  by (simp add: fill_def Let_def min_def)

lemma start_bound: "length (in_flight (start C n :: 'r executor)) \<le> C"
  unfolding start_def by (rule fill_bound) simp

lemma deliver_bound:
  "length (in_flight st) \<le> C \<Longrightarrow> length (in_flight (deliver C st i r)) \<le> C"
  unfolding deliver_def by (rule fill_bound) (auto simp: length_remove1)

lemma deliver_saturated:
  "length (in_flight st) \<le> C \<Longrightarrow> saturated C (deliver C st i r)"
  unfolding deliver_def by (rule fill_saturated) (auto simp: length_remove1)

lemma deliver_measure:
  "i \<in> set (in_flight st) \<Longrightarrow>
   length (pending (deliver C st i r)) + length (in_flight (deliver C st i r)) <
   length (pending st) + length (in_flight st)"
proof -
  assume mem: "i \<in> set (in_flight st)"
  then have "0 < length (in_flight st)" by (cases "in_flight st") auto
  with mem show ?thesis unfolding deliver_def fill_measure by (simp add: length_remove1)
qed

lemma idle_signalled:
  assumes "inv0 tasks st" "pending st = []" "in_flight st = []"
  shows "signalled st"
proof -
  from assms(1) obtain k where k: "k \<le> length tasks" "pending st = [k..<length tasks]"
    and slots: "slots_ok tasks k st" and len: "length (results st) = length tasks"
    unfolding inv0_def by (elim conjE exE)
  from k(2) assms(2) have "[k..<length tasks] = []" by simp
  then have "length tasks \<le> k" by auto
  with k(1) have kn: "k = length tasks" by simp
  have "x \<noteq> None" if "x \<in> set (results st)" for x
  proof -
    from that obtain i where i: "i < length (results st)" "results st ! i = x"
      by (auto simp: in_set_conv_nth)
    from slots have
      "(i < k \<and> i \<notin> set (in_flight st) \<longrightarrow>
           tasks ! i = Returns (the (results st ! i)) \<and> results st ! i \<noteq> None) \<and>
        (\<not> (i < k \<and> i \<notin> set (in_flight st)) \<longrightarrow> results st ! i = None)"
      if "i < length tasks"
      using that unfolding slots_ok_def by (elim allE[of _ i] impE)
    then show ?thesis using i len kn assms(3) by simp
  qed
  then show ?thesis unfolding signalled_def by blast
qed

lemma drain:
  assumes C: "1 \<le> C" and all: "\<forall>t\<in>set tasks. \<exists>r. t = Returns r"
  shows "inv0 tasks st \<Longrightarrow> length (in_flight st) \<le> C \<Longrightarrow> saturated C st \<Longrightarrow>
         \<exists>ext st'. run C tasks st ext = Inr st' \<and> signalled st'"
proof (induction "length (pending st) + length (in_flight st)" arbitrary: st rule: less_induct)
  case less
  show ?case
  proof (cases "in_flight st")
    case Nil
    with less.prems(3) C have "pending st = []" by (simp add: saturated_def)
    with less.prems(1) Nil have "signalled st" by (simp add: idle_signalled)
    then have "run C tasks st [] = Inr st \<and> signalled st" by simp
    then show ?thesis by blast
  next
    case (Cons i rest)
    then have mem: "i \<in> set (in_flight st)" by simp
    from less.prems(1) obtain k where "k \<le> length tasks" "set (in_flight st) \<subseteq> {..<k}"
      unfolding inv0_def by (elim conjE exE)
    with mem have i: "i < length tasks" by auto
    from all i obtain r where r: "tasks ! i = Returns r" by (rule all_returns_nth)
    let ?st = "deliver C st i r"
    have 1: "inv0 tasks ?st" using less.prems(1) mem i r by (rule deliver_inv0)
    have 2: "length (in_flight ?st) \<le> C" using less.prems(2) by (rule deliver_bound)
    have 3: "saturated C ?st" using less.prems(2) by (rule deliver_saturated)
    have 4: "length (pending ?st) + length (in_flight ?st) <
        length (pending st) + length (in_flight st)" using mem by (rule deliver_measure)
    have "\<exists>ext st'. run C tasks ?st ext = Inr st' \<and> signalled st'"
      using 4 1 2 3 by (rule less.hyps)
    then obtain ext st' where e: "run C tasks ?st ext = Inr st'" "signalled st'"
      by (elim exE conjE)
    have "run C tasks st (i # ext) = Inr st'" using mem i r e(1) by simp
    with e(2) show ?thesis by blast
  qed
qed

lemma run_append:
  "run C tasks st (a @ b) =
     (case run C tasks st a of Inl e \<Rightarrow> Inl e | Inr st' \<Rightarrow> run C tasks st' b)"
  by (induction a arbitrary: st) (simp_all split: task.splits)

lemma run_bound:
  "length (in_flight st) \<le> C \<Longrightarrow> saturated C st \<Longrightarrow> run C tasks st sched = Inr st' \<Longrightarrow>
   length (in_flight st') \<le> C \<and> saturated C st'"
proof (induction sched arbitrary: st)
  case Nil
  then show ?case by simp
next
  case (Cons i sched)
  show ?case
  proof (cases "i \<in> set (in_flight st) \<and> i < length tasks")
    case False
    with Cons.prems(3) have "run C tasks st sched = Inr st'" by auto
    with Cons.IH Cons.prems(1,2) show ?thesis by blast
  next
    case True
    show ?thesis
    proof (cases "tasks ! i")
      case (Returns r)
      with True Cons.prems(3) have r: "run C tasks (deliver C st i r) sched = Inr st'" by simp
      have b: "length (in_flight (deliver C st i r)) \<le> C"
        using Cons.prems(1) by (rule deliver_bound)
      have s: "saturated C (deliver C st i r)" using Cons.prems(1) by (rule deliver_saturated)
      from b s r show ?thesis by (rule Cons.IH)
    next
      case Silent
      with True Cons.prems(3) have "run C tasks st sched = Inr st'" by simp
      with Cons.IH Cons.prems(1,2) show ?thesis by blast
    next
      case (Raises e)
      with True Cons.prems(3) show ?thesis by simp
    qed
  qed
qed

lemma run_no_crash:
  assumes all: "\<forall>t\<in>set tasks. \<exists>r. t = Returns r"
  shows "\<exists>st'. run C tasks st sched = Inr st'"
proof (induction sched arbitrary: st)
  case Nil
  then show ?case by simp
next
  case (Cons i sched)
  show ?case
  proof (cases "i \<in> set (in_flight st) \<and> i < length tasks")
    case False
    then show ?thesis using Cons.IH by auto
  next
    case True
    from all True obtain r where "tasks ! i = Returns r" by (blast intro: all_returns_nth)
    with True show ?thesis using Cons.IH by simp
  qed
qed

lemma completion_reachable:
  assumes C: "1 \<le> C" and all: "\<forall>t\<in>set tasks. \<exists>r. t = Returns r"
  shows "\<exists>ext st. bounded_executor C tasks (sched @ ext) = Inr st \<and> signalled st"
proof -
  let ?s0 = "start C (length tasks) :: 'a executor"
  from run_no_crash[OF all] obtain st1 where st1: "run C tasks ?s0 sched = Inr st1" by blast
  have "inv0 tasks st1" using start_inv0 st1 by (rule run_inv0)
  moreover have "length (in_flight st1) \<le> C \<and> saturated C st1"
    using start_bound start_saturated st1 by (rule run_bound)
  ultimately obtain ext st where "run C tasks st1 ext = Inr st" "signalled st"
    using drain[OF C all] by blast
  then have "bounded_executor C tasks (sched @ ext) = Inr st \<and> signalled st"
    using C st1 by (simp add: bounded_executor_def run_append)
  then show ?thesis by blast
qed

lemma bounded_executor_inv0:
  assumes "bounded_executor C tasks sched = Inr st"
  shows "inv0 tasks st"
proof -
  from assms have "run C tasks (start C (length tasks)) sched = Inr st"
    by (simp add: bounded_executor_def split: if_splits)
  with start_inv0 show ?thesis by (rule run_inv0)
qed

lemma never_signalled:
  assumes i: "i < length tasks" and no: "\<And>r. tasks ! i \<noteq> Returns r"
    and run: "bounded_executor C tasks sched = Inr st"
  shows "\<not> signalled st"
proof
  assume "signalled st"
  with bounded_executor_inv0[OF run] have eq: "map Returns (returned st) = tasks"
    by (rule inv0_signalled)
  then have "length (returned st) = length tasks" by (metis length_map)
  with i have "map Returns (returned st) ! i = Returns (returned st ! i)" by simp
  with eq have "tasks ! i = Returns (returned st ! i)" by simp
  with no show False by blast
qed

lemma run_not_invalid_config: "run C tasks st sched \<noteq> Inl InvalidConfig"
  by (induction sched arbitrary: st) (simp_all split: task.splits)

lemma completion_order_is_irrelevant:
  assumes "bounded_executor C tasks sched1 = Inr st1" "signalled st1"
    and "bounded_executor C tasks sched2 = Inr st2" "signalled st2"
  shows "returned st1 = returned st2"
proof -
  have "map Returns (returned st1) = tasks"
    using bounded_executor_inv0[OF assms(1)] assms(2) by (rule inv0_signalled)
  moreover have "map Returns (returned st2) = tasks"
    using bounded_executor_inv0[OF assms(3)] assms(4) by (rule inv0_signalled)
  ultimately have "map Returns (returned st1) = map Returns (returned st2)" by simp
  then show ?thesis by (rule map_injective) (simp add: inj_def)
qed

lemma at_most_C_in_flight:
  assumes "bounded_executor C tasks sched = Inr st"
  shows "length (in_flight st) \<le> C"
proof -
  from assms have "run C tasks (start C (length tasks)) sched = Inr st"
    by (simp add: bounded_executor_def split: if_splits)
  with start_bound start_saturated have "length (in_flight st) \<le> C \<and> saturated C st"
    by (rule run_bound)
  then show ?thesis by simp
qed

lemma no_tasks_complete_at_once:
  assumes "C \<noteq> 0"
  shows "\<exists>st. bounded_executor C ([] :: 'r task list) sched = Inr st \<and> signalled st \<and>
           returned st = []"
proof -
  have "run C ([] :: 'r task list) st sched = Inr st" for st :: "'r executor"
    by (induction sched) simp_all
  then show ?thesis using assms
    by (simp add: bounded_executor_def start_def fill_def signalled_def returned_def)
qed

section \<open>The claims\<close>

subsection \<open>C1: one result for every task\<close>

text \<open>
  Claim C1 says that the completion callback is eventually invoked with one result for
  each of the N module URLs, a failed fetch giving a failure result. The response handler
  of \<open>mod_url2mod_data\<close> does nothing on a transport error or a status other than 200: it
  never invokes its callback. At a single URL answered with status 404 the task is silent
  and, whatever the schedule, completion is never signalled: the claim fails there.
\<close>

theorem failed_fetch_yields_no_result:
  "mod_url2mod_data JSON_parse (\<lambda>u. \<lparr>err = False, statusCode = 404, body = []\<rparr>)
      ''http://nodejs.org/api/fs.json'' = Silent \<and>
   \<not> (\<exists>sched st.
         mod_urls2mod_datas JSON_parse (\<lambda>u. \<lparr>err = False, statusCode = 404, body = []\<rparr>)
           [''http://nodejs.org/api/fs.json''] sched = Inr st \<and> signalled st)"
proof (intro conjI notI)
  show s: "mod_url2mod_data JSON_parse (\<lambda>u. \<lparr>err = False, statusCode = 404, body = []\<rparr>)
      ''http://nodejs.org/api/fs.json'' = Silent"
    by (simp add: mod_url2mod_data_def)
  assume "\<exists>sched st.
         mod_urls2mod_datas JSON_parse (\<lambda>u. \<lparr>err = False, statusCode = 404, body = []\<rparr>)
           [''http://nodejs.org/api/fs.json''] sched = Inr st \<and> signalled st"
  then obtain sched st where
    r: "bounded_executor NUM_SIMULTANEOUS_DOWNLOADS [Silent :: jsval task] sched = Inr st"
    and sg: "signalled st"
    unfolding mod_urls2mod_datas_def by (auto simp: s)
  have "\<not> signalled st"
    by (rule never_signalled[OF _ _ r, of 0]) simp_all
  with sg show False by blast
qed

subsection \<open>C2: results in submission order\<close>

text \<open>
  Claim C2: for every list of tasks and every ceiling \<open>C\<close> with \<open>1 \<le> C \<le> N\<close>, the
  collection the executor hands to the completion callback is ordered by submission
  index, whatever the order in which the tasks complete: whenever completion is signalled,
  the result at position \<open>i\<close> is the result of task \<open>i\<close> and there are exactly N of them.
  When every task invokes its callback, every schedule can be continued to one that
  signals completion.
\<close>

theorem results_ordered_by_submission_index:
  assumes "1 \<le> C" and "C \<le> length tasks"
  shows "(\<forall>sched st. bounded_executor C tasks sched = Inr st \<and> signalled st \<longrightarrow>
            map Returns (returned st) = tasks) \<and>
         ((\<forall>t\<in>set tasks. \<exists>r. t = Returns r) \<longrightarrow>
            (\<forall>sched. \<exists>ext st. bounded_executor C tasks (sched @ ext) = Inr st \<and> signalled st))"
proof (intro conjI allI impI)
  fix sched and st :: "'a executor"
  assume "bounded_executor C tasks sched = Inr st \<and> signalled st"
  then show "map Returns (returned st) = tasks"
    using bounded_executor_inv0 inv0_signalled by blast
next
  fix sched
  assume "\<forall>t\<in>set tasks. \<exists>r. t = Returns r"
  with assms(1) show "\<exists>ext st. bounded_executor C tasks (sched @ ext) = Inr st \<and> signalled st"
    by (rule completion_reachable)
qed

lemma scenario3_run:
  "bounded_executor 3 [Returns (300::nat), Returns 100, Returns 200, Returns 50, Returns 400]
     [1, 3, 2, 0, 4] =
   Inr \<lparr>pending = [], in_flight = [],
        results = [Some 300, Some 100, Some 200, Some 50, Some 400]\<rparr>"
  by code_simp

theorem results_ordered_by_submission_index_witness:
  "(1::nat) \<le> 3 \<and>
   3 \<le> length [Returns (300::nat), Returns 100, Returns 200, Returns 50, Returns 400] \<and>
   (\<exists>st. bounded_executor 3 [Returns (300::nat), Returns 100, Returns 200, Returns 50, Returns 400]
            [1, 3, 2, 0, 4] = Inr st \<and> signalled st \<and>
         returned st = [300, 100, 200, 50, 400])"
proof -
  let ?ts = "[Returns (300::nat), Returns 100, Returns 200, Returns 50, Returns 400]"
  let ?st = "\<lparr>pending = [], in_flight = [],
        results = [Some (300::nat), Some 100, Some 200, Some 50, Some 400]\<rparr>"
  have sg: "signalled ?st" by (simp add: signalled_def)
  have "map Returns (returned ?st) = ?ts"
    using results_ordered_by_submission_index[of 3 ?ts] scenario3_run sg by simp
  then have "map Returns (returned ?st) = map Returns [300, 100, 200, 50, 400]" by simp
  then have "returned ?st = [300, 100, 200, 50, 400]"
    by (rule map_injective) (simp add: inj_def)
  with scenario3_run sg show ?thesis by simp
qed

subsection \<open>C3: a failed fetch and its siblings\<close>

text \<open>
  Every failed fetch, a transport error or a status other than 200, is a task that never
  invokes its callback.
\<close>

lemma failed_fetch_is_silent:
  assumes "err (request mod_url) \<or> statusCode (request mod_url) \<noteq> 200"
  shows "mod_url2mod_data JSON_parse request mod_url = Silent"
  using assms by (auto simp add: mod_url2mod_data_def Let_def)

text \<open>
  While every task in flight is silent, no response changes the state of the executor.
\<close>

lemma run_all_silent:
  assumes "\<forall>i \<in> set (in_flight st). i < length tasks \<and> tasks ! i = Silent"
  shows "run C tasks st sched = Inr st"
  using assms by (induction sched) auto

text \<open>
  A failed fetch keeps its slot for ever: when the first 36 fetches fail, the pool is
  full of them and no later URL is ever fetched, whatever the schedule.
\<close>

lemma failed_fetches_starve_the_rest:
  assumes silent: "\<forall>u \<in> set failed. mod_url2mod_data JSON_parse request u = Silent"
    and len: "length failed = 36"
  shows "mod_urls2mod_datas JSON_parse request (failed @ rest) sched =
           Inr \<lparr>pending = [36..<36 + length rest], in_flight = [0..<36],
                results = replicate (36 + length rest) None\<rparr>"
proof -
  let ?tasks = "map (mod_url2mod_data JSON_parse request) (failed @ rest)"
  let ?st = "\<lparr>pending = [36..<36 + length rest], in_flight = [0..<36],
                results = replicate (36 + length rest) None\<rparr> :: jsval executor"
  have st: "start 36 (length ?tasks) = ?st"
    using len by (simp add: start_def fill_def Let_def take_upt drop_upt)
  have "?tasks ! i = Silent" if "i < 36" for i
  proof -
    from that len have "?tasks ! i = mod_url2mod_data JSON_parse request (failed ! i)"
      by (simp add: nth_append)
    moreover from that len have "failed ! i \<in> set failed" by simp
    ultimately show ?thesis using silent by simp
  qed
  then have "\<forall>i \<in> set (in_flight ?st). i < length ?tasks \<and> ?tasks ! i = Silent"
    using len by simp
  then have "run 36 ?tasks ?st sched = Inr ?st" by (rule run_all_silent)
  then show ?thesis
    by (simp only: mod_urls2mod_datas_def bounded_executor_def NUM_SIMULTANEOUS_DOWNLOADS_def st)
      simp
qed

text \<open>
  Claim C3 says that a failed fetch becomes an error carried in the result of its own
  task, that it does not affect its sibling fetches, and that the pipeline still
  completes with a best-effort grouping. The response handler of \<open>mod_url2mod_data\<close>
  has no branch for a failure (the defect of C1). With two URLs, the first one failing
  with a transport error, no schedule leads to completion: nothing is ever grouped, and
  the claim fails there.
\<close>

theorem failed_fetch_blocks_completion:
  "\<not> (\<exists>sched st.
         mod_urls2mod_datas (\<lambda>s. Inr (JObj []))
           (\<lambda>u. if u = ''http://nodejs.org/api/fs.json''
                then \<lparr>err = True, statusCode = 0, body = []\<rparr>
                else \<lparr>err = False, statusCode = 200, body = ''{}''\<rparr>)
           [''http://nodejs.org/api/fs.json'', ''http://nodejs.org/api/net.json''] sched = Inr st \<and>
         signalled st)"
proof
  let ?P = "\<lambda>s :: string. Inr (JObj []) :: js_error + jsval"
  let ?R = "\<lambda>u. if u = ''http://nodejs.org/api/fs.json''
                then \<lparr>err = True, statusCode = 0, body = []\<rparr>
                else \<lparr>err = False, statusCode = 200, body = ''{}''\<rparr>"
  let ?urls = "[''http://nodejs.org/api/fs.json'', ''http://nodejs.org/api/net.json'']"
  let ?tasks = "map (mod_url2mod_data ?P ?R) ?urls"
  assume "\<exists>sched st. mod_urls2mod_datas ?P ?R ?urls sched = Inr st \<and> signalled st"
  then obtain sched st where
    r: "bounded_executor NUM_SIMULTANEOUS_DOWNLOADS ?tasks sched = Inr st"
    and sg: "signalled st"
    unfolding mod_urls2mod_datas_def by (elim exE conjE)
  have t0: "?tasks ! 0 = Silent" by (simp add: mod_url2mod_data_def)
  have len: "0 < length ?tasks" by simp
  have no: "?tasks ! 0 \<noteq> Returns d" for d unfolding t0 by simp
  from len no r have "\<not> signalled st" by (rule never_signalled)
  with sg show False by blast
qed

subsection \<open>C4: exceptions of the transformer\<close>

text \<open>
  Claim C4 says that the transformer never lets an exception reach its caller, for a
  record of any shape. The module name is read before the \<open>try\<close> block: a record
  without a \<open>source\<close>, and \<open>null\<close>, make the function throw.
\<close>

theorem missing_source_throws:
  "mod_data2modname_stability (JObj [(''stability'', JNum 3)]) = Inl TypeError \<and>
   mod_data2modname_stability JNull = Inl TypeError"
  by (simp add: mod_data2modname_stability_def bindE_def name_at_def)

text \<open>
  Claim C4, as amended: for every record whose \<open>source\<close> gives a module name, the
  transformer returns; every exception thrown while the stability is looked up is caught
  inside it and becomes \<open>undefined\<close> for that record.
\<close>

theorem stability_errors_are_caught:
  assumes "get_prop mod_data ''source'' = Inr src"
    and "to_string src = Inr s"
    and "name_regex_exec s = Some nm"
  shows "\<exists>st. mod_data2modname_stability mod_data = Inr \<lparr>modname = nm, stability = st\<rparr> \<and>
           ((\<exists>e. stability_try mod_data nm = Inl e) \<longrightarrow> st = JUndefined) \<and>
           (\<forall>v. stability_try mod_data nm = Inr v \<longrightarrow> st = v)"
  using assms by (auto simp add: mod_data2modname_stability_def bindE_def caught_def)

lemma fs_name: "name_regex_exec ''doc/api/fs.markdown'' = Some ''fs''"
  by code_simp

theorem stability_errors_are_caught_witness:
  "stability_try (JObj [(''source'', JStr ''doc/api/fs.markdown''), (''miscs'', JArr [])]) ''fs'' =
     Inl TypeError \<and>
   mod_data2modname_stability
     (JObj [(''source'', JStr ''doc/api/fs.markdown''), (''miscs'', JArr [])]) =
     Inr \<lparr>modname = ''fs'', stability = JUndefined\<rparr>"
proof -
  let ?d = "JObj [(''source'', JStr ''doc/api/fs.markdown''), (''miscs'', JArr [])]"
  have t: "stability_try ?d ''fs'' = Inl TypeError"
    by (simp add: stability_try_def miscs_rule_def bindE_def)
  have "get_prop ?d ''source'' = Inr (JStr ''doc/api/fs.markdown'')" by simp
  moreover have "to_string (JStr ''doc/api/fs.markdown'') = Inr ''doc/api/fs.markdown''"
    by simp
  ultimately obtain st where
    "mod_data2modname_stability ?d = Inr \<lparr>modname = ''fs'', stability = st\<rparr>"
    "(\<exists>e. stability_try ?d ''fs'' = Inl e) \<longrightarrow> st = JUndefined"
    using stability_errors_are_caught[of ?d "JStr ''doc/api/fs.markdown''"
        "''doc/api/fs.markdown''" "''fs''"] fs_name
    by blast
  with t show ?thesis by simp
qed

subsection \<open>C5: the order of the rules\<close>

text \<open>
  Claim C5 states the order of the rules for every input record, and that a record with
  none of the four recognised fields yields the unknown value. The records of its
  examples carry no \<open>source\<close>: on them, and on the empty record, the transformer throws.
\<close>

theorem record_without_source_throws:
  "mod_data2modname_stability (JObj [(''modules'', JArr [JObj [(''stability'', JNum 3)]])]) =
     Inl TypeError \<and>
   mod_data2modname_stability (JObj [(''globals'', JArr [JObj [(''stability'', JNum 5)]])]) =
     Inl TypeError \<and>
   mod_data2modname_stability (JObj []) = Inl TypeError"
  by (simp add: mod_data2modname_stability_def bindE_def name_at_def)

text \<open>
  Claim C5, as amended: for every record whose \<open>source\<close> gives a module name, the
  stability is found by the first rule that applies: the rule of the crypto module when
  the name contains \<open>crypto\<close>; otherwise the top-level \<open>stability\<close>, then \<open>miscs\<close>,
  then \<open>modules\<close>, then \<open>globals\<close>; and \<open>undefined\<close> when none of the four fields is
  there. With \<open>modules: [{stability: v}]\<close> or \<open>globals: [{stability: v}]\<close> as the first
  field present, the stability is \<open>v\<close>.
\<close>

theorem stability_resolution_order:
  assumes src: "map_of kvs ''source'' = Some src"
    and str: "to_string src = Inr s"
    and nm: "name_regex_exec s = Some nm"
  shows "\<exists>st. mod_data2modname_stability (JObj kvs) = Inr \<lparr>modname = nm, stability = st\<rparr> \<and>
    (crypto_regex_test nm \<longrightarrow> st = caught (crypto_rule (JObj kvs))) \<and>
    (\<not> crypto_regex_test nm \<longrightarrow>
       (\<forall>v. map_of kvs ''stability'' = Some v \<longrightarrow> st = v) \<and>
       (map_of kvs ''stability'' = None \<longrightarrow>
          (\<forall>m. map_of kvs ''miscs'' = Some m \<longrightarrow> st = caught (miscs_rule (JObj kvs))) \<and>
          (map_of kvs ''miscs'' = None \<longrightarrow>
             (\<forall>m. map_of kvs ''modules'' = Some m \<longrightarrow> st = caught (modules_rule (JObj kvs))) \<and>
             (\<forall>ps rest v. map_of kvs ''modules'' = Some (JArr (JObj ps # rest)) \<and>
                 map_of ps ''stability'' = Some v \<longrightarrow> st = v) \<and>
             (map_of kvs ''modules'' = None \<longrightarrow>
                (\<forall>m. map_of kvs ''globals'' = Some m \<longrightarrow> st = caught (globals_rule (JObj kvs))) \<and>
                (\<forall>ps rest v. map_of kvs ''globals'' = Some (JArr (JObj ps # rest)) \<and>
                    map_of ps ''stability'' = Some v \<longrightarrow> st = v) \<and>
                (map_of kvs ''globals'' = None \<longrightarrow> st = JUndefined)))))"
  using assms
  by (auto simp add: mod_data2modname_stability_def bindE_def caught_def stability_try_def
      modules_rule_def globals_rule_def)

lemma globals_name: "name_regex_exec ''doc/api/globals.markdown'' = Some ''globals''"
  by code_simp

lemma synopsis_name: "name_regex_exec ''doc/api/synopsis.markdown'' = Some ''synopsis''"
  by code_simp

lemma crypto_name: "name_regex_exec ''doc/api/crypto.markdown'' = Some ''crypto''"
  by code_simp

theorem stability_resolution_order_witness:
  "mod_data2modname_stability
     (JObj [(''source'', JStr ''doc/api/fs.markdown''),
            (''modules'', JArr [JObj [(''stability'', JNum 3)]])]) =
     Inr \<lparr>modname = ''fs'', stability = JNum 3\<rparr> \<and>
   mod_data2modname_stability
     (JObj [(''source'', JStr ''doc/api/globals.markdown''),
            (''globals'', JArr [JObj [(''stability'', JNum 5)]])]) =
     Inr \<lparr>modname = ''globals'', stability = JNum 5\<rparr> \<and>
   mod_data2modname_stability
     (JObj [(''source'', JStr ''doc/api/synopsis.markdown''), (''desc'', JArr [])]) =
     Inr \<lparr>modname = ''synopsis'', stability = JUndefined\<rparr> \<and>
   mod_data2modname_stability
     (JObj [(''source'', JStr ''doc/api/fs.markdown''), (''stability'', JNum 4),
            (''miscs'', JArr []), (''modules'', JArr [JObj [(''stability'', JNum 3)]])]) =
     Inr \<lparr>modname = ''fs'', stability = JNum 4\<rparr> \<and>
   mod_data2modname_stability
     (JObj [(''source'', JStr ''doc/api/crypto.markdown''), (''stability'', JNum 4),
            (''modules'', JArr [JObj [(''desc'', JStr ''<pre>Stability: 2 - Unstable'')]])]) =
     Inr \<lparr>modname = ''crypto'', stability = JNum 2\<rparr>"
proof -
  let ?a = "[(''source'', JStr ''doc/api/fs.markdown''),
            (''modules'', JArr [JObj [(''stability'', JNum 3)]])]"
  let ?b = "[(''source'', JStr ''doc/api/globals.markdown''),
            (''globals'', JArr [JObj [(''stability'', JNum 5)]])]"
  let ?c = "[(''source'', JStr ''doc/api/synopsis.markdown''), (''desc'', JArr [])]"
  let ?d = "[(''source'', JStr ''doc/api/fs.markdown''), (''stability'', JNum 4),
            (''miscs'', JArr []), (''modules'', JArr [JObj [(''stability'', JNum 3)]])]"
  let ?e = "[(''source'', JStr ''doc/api/crypto.markdown''), (''stability'', JNum 4),
            (''modules'', JArr [JObj [(''desc'', JStr ''<pre>Stability: 2 - Unstable'')]])]"
  have a: "mod_data2modname_stability (JObj ?a) = Inr \<lparr>modname = ''fs'', stability = JNum 3\<rparr>"
    using stability_resolution_order[of ?a "JStr ''doc/api/fs.markdown''"
        "''doc/api/fs.markdown''" "''fs''"] fs_name
    by auto
  have b: "mod_data2modname_stability (JObj ?b) =
      Inr \<lparr>modname = ''globals'', stability = JNum 5\<rparr>"
    using stability_resolution_order[of ?b "JStr ''doc/api/globals.markdown''"
        "''doc/api/globals.markdown''" "''globals''"] globals_name
    by auto
  have c: "mod_data2modname_stability (JObj ?c) =
      Inr \<lparr>modname = ''synopsis'', stability = JUndefined\<rparr>"
    using stability_resolution_order[of ?c "JStr ''doc/api/synopsis.markdown''"
        "''doc/api/synopsis.markdown''" "''synopsis''"] synopsis_name
    by auto
  have d: "mod_data2modname_stability (JObj ?d) = Inr \<lparr>modname = ''fs'', stability = JNum 4\<rparr>"
    using stability_resolution_order[of ?d "JStr ''doc/api/fs.markdown''"
        "''doc/api/fs.markdown''" "''fs''"] fs_name
    by auto
  have "caught (crypto_rule (JObj ?e)) = JNum 2" by code_simp
  then have e: "mod_data2modname_stability (JObj ?e) =
      Inr \<lparr>modname = ''crypto'', stability = JNum 2\<rparr>"
    using stability_resolution_order[of ?e "JStr ''doc/api/crypto.markdown''"
        "''doc/api/crypto.markdown''" "''crypto''"] crypto_name
    by auto
  from a b c d e show ?thesis by (intro conjI)
qed

subsection \<open>The grouping loop, key by key\<close>

lemma group_step_apply:
  "prop_key m = Inr key \<Longrightarrow> key \<noteq> ''__proto__'' \<Longrightarrow>
   \<exists>stn'. group_step stn m = Inr stn' \<and>
     (\<forall>k. stn' k =
        (if key = k then Some ((case stn k of None \<Rightarrow> [] | Some old \<Rightarrow> old) @ [modname m])
         else stn k))"
  by (simp add: group_step_def assign_def Let_def bindE_def split: option.splits)

lemma group_loop_apply:
  "\<forall>m \<in> set ms. \<exists>key. prop_key m = Inr key \<and> key \<noteq> ''__proto__'' \<Longrightarrow>
   \<exists>g. group_loop stn ms = Inr g \<and>
     (\<forall>k. g k =
       (let names = map modname (filter (\<lambda>m. prop_key m = Inr k) ms)
        in if names = [] then stn k
           else Some ((case stn k of None \<Rightarrow> [] | Some old \<Rightarrow> old) @ names)))"
proof (induction ms arbitrary: stn)
  case Nil
  then show ?case by simp
next
  case (Cons m ms)
  from Cons.prems obtain key where key: "prop_key m = Inr key" "key \<noteq> ''__proto__''"
    by auto
  from group_step_apply[OF key, of stn] obtain stn' where
    s: "group_step stn m = Inr stn'"
    and s': "\<And>k. stn' k =
        (if key = k then Some ((case stn k of None \<Rightarrow> [] | Some old \<Rightarrow> old) @ [modname m])
         else stn k)" by blast
  from Cons.prems have "\<forall>m \<in> set ms. \<exists>key. prop_key m = Inr key \<and> key \<noteq> ''__proto__''"
    by simp
  from Cons.IH[OF this, of stn'] obtain g where
    g: "group_loop stn' ms = Inr g"
    and g': "\<And>k. g k =
       (let names = map modname (filter (\<lambda>m. prop_key m = Inr k) ms)
        in if names = [] then stn' k
           else Some ((case stn' k of None \<Rightarrow> [] | Some old \<Rightarrow> old) @ names))" by blast
  have "group_loop stn (m # ms) = Inr g" using s g by simp
  moreover have "g k =
       (let names = map modname (filter (\<lambda>m. prop_key m = Inr k) (m # ms))
        in if names = [] then stn k
           else Some ((case stn k of None \<Rightarrow> [] | Some old \<Rightarrow> old) @ names))" for k
    unfolding g'[of k] s'[of k] using key(1) by (simp add: Let_def split: option.splits)
  ultimately show ?case by blast
qed

lemma group_names_apply:
  assumes "\<forall>m \<in> set ms. \<exists>key. prop_key m = Inr key \<and> key \<noteq> ''__proto__''"
  shows "\<exists>g. group_names ms = Inr g \<and>
     (\<forall>k. g k =
       (if filter (\<lambda>m. prop_key m = Inr k) ms = [] then None
        else Some (map modname (filter (\<lambda>m. prop_key m = Inr k) ms))))"
proof -
  from group_loop_apply[OF assms, of Map.empty] obtain g where
    g: "group_loop Map.empty ms = Inr g"
    and g': "\<And>k. g k =
       (let names = map modname (filter (\<lambda>m. prop_key m = Inr k) ms)
        in if names = [] then Map.empty k
           else Some ((case Map.empty k of None \<Rightarrow> [] | Some old \<Rightarrow> old) @ names))" by blast
  have "g k =
       (if filter (\<lambda>m. prop_key m = Inr k) ms = [] then None
        else Some (map modname (filter (\<lambda>m. prop_key m = Inr k) ms)))" for k
    unfolding g'[of k] by (simp add: Let_def)
  with g show ?thesis unfolding group_names_def by blast
qed

lemma sum_length_groups:
  "finite A \<Longrightarrow> (\<forall>x \<in> set xs. \<exists>k \<in> A. f x = Inr k) \<Longrightarrow>
   (\<Sum>k\<in>A. length (filter (\<lambda>x. f x = Inr k) xs)) = length xs"
proof (induction xs)
  case Nil
  then show ?case by simp
next
  case (Cons x xs)
  from Cons.prems obtain kx where kx: "kx \<in> A" "f x = Inr kx" by auto
  have "(\<Sum>k\<in>A. length (filter (\<lambda>y. f y = Inr k) (x # xs))) =
        (\<Sum>k\<in>A. (if kx = k then 1 else 0) + length (filter (\<lambda>y. f y = Inr k) xs))"
    by (rule sum.cong) (auto simp: kx)
  also have "\<dots> = (\<Sum>k\<in>A. (if kx = k then 1 else 0)) +
      (\<Sum>k\<in>A. length (filter (\<lambda>y. f y = Inr k) xs))"
    by (simp add: sum.distrib)
  also have "(\<Sum>k\<in>A. (if kx = k then 1 else 0::nat)) = 1"
    using Cons.prems(1) kx(1) by simp
  finally show ?case using Cons by simp
qed

lemma group_names_conserves:
  assumes "\<forall>m \<in> set ms. \<exists>key. prop_key m = Inr key \<and> key \<noteq> ''__proto__''"
    and "\<forall>m \<in> set ms. plain_numbers (stability m)"
  shows "\<exists>g. group_names ms = Inr g \<and>
           dom g = {k. \<exists>m \<in> set ms. prop_key m = Inr k} \<and>
           (\<Sum>k\<in>dom g. length (the (g k))) = length ms"
proof -
  from group_names_apply[OF assms(1)] obtain g where
    g: "group_names ms = Inr g"
    and g': "\<And>k. g k =
       (if filter (\<lambda>m. prop_key m = Inr k) ms = [] then None
        else Some (map modname (filter (\<lambda>m. prop_key m = Inr k) ms)))" by blast
  let ?A = "{k. \<exists>m \<in> set ms. prop_key m = Inr k}"
  have ne: "(filter (\<lambda>m. prop_key m = Inr k) ms \<noteq> []) = (k \<in> ?A)" for k
    by (auto simp: filter_empty_conv)
  have d: "dom g = ?A" by (auto simp: dom_def g' ne)
  have "?A = (\<lambda>m. projr (prop_key m)) ` {m \<in> set ms. \<exists>k. prop_key m = Inr k}"
    by force
  then have fin: "finite ?A" by simp
  have "(\<Sum>k\<in>?A. length (the (g k))) =
        (\<Sum>k\<in>?A. length (filter (\<lambda>m. prop_key m = Inr k) ms))"
  proof (rule sum.cong)
    fix k assume "k \<in> ?A"
    then have "filter (\<lambda>m. prop_key m = Inr k) ms \<noteq> []" by (simp only: ne)
    then show "length (the (g k)) = length (filter (\<lambda>m. prop_key m = Inr k) ms)"
      by (simp add: g')
  qed simp
  also have "\<dots> = length ms"
    using fin
  proof (rule sum_length_groups)
    show "\<forall>x\<in>set ms. \<exists>k\<in>?A. prop_key x = Inr k" using assms(1) by blast
  qed
  finally show ?thesis using g d by simp
qed

subsection \<open>C6: grouping\<close>

text \<open>
  Claim C6 says that records are grouped by their classification key, those with the
  unknown value in a group of their own, none dropped. The keys of the object are
  property names: \<open>undefined\<close> and the string \<open>"undefined"\<close> share a group. A record
  whose key is \<open>__proto__\<close> is in no group, and a key that has no property name (an
  object with a \<open>toString\<close> property) makes the loop throw.
\<close>

theorem keys_are_coerced_and_proto_is_lost:
  "group_names [\<lparr>modname = ''a'', stability = JUndefined\<rparr>,
                \<lparr>modname = ''b'', stability = JStr ''undefined''\<rparr>] =
     Inr [''undefined'' \<mapsto> [''a'', ''b'']] \<and>
   group_names [\<lparr>modname = ''c'', stability = JStr ''__proto__''\<rparr>] = Inr Map.empty \<and>
   group_names [\<lparr>modname = ''d'', stability = JObj [(''toString'', JNull)]\<rparr>] = Inl TypeError"
  by (simp add: group_names_def group_step_def assign_def prop_key_def bindE_def)

text \<open>
  Claim C6, as amended: for every sequence of records each of whose keys has a property
  name other than \<open>__proto__\<close>, the numbers in the keys being safe integers (of
  magnitude below \<open>2 ^ 53\<close>), the group of a property name holds the names of the
  records whose stability has that property name, in the order of the input, and there is
  no group without a record; the records whose stability is \<open>undefined\<close> are in the group
  \<open>undefined\<close>. The records fs and net of stability 3 and vm of stability 5 give
  \<open>{3: [fs, net], 5: [vm]}\<close>.
\<close>

theorem groups_by_property_name:
  assumes "\<forall>m \<in> set ms. \<exists>key. prop_key m = Inr key \<and> key \<noteq> ''__proto__''"
    and "\<forall>m \<in> set ms. plain_numbers (stability m)"
  shows "\<exists>g. group_names ms = Inr g \<and>
           (\<forall>k. g k =
              (if filter (\<lambda>m. prop_key m = Inr k) ms = [] then None
               else Some (map modname (filter (\<lambda>m. prop_key m = Inr k) ms)))) \<and>
           (\<forall>m \<in> set ms. stability m = JUndefined \<longrightarrow>
              (\<exists>names. g ''undefined'' = Some names \<and> modname m \<in> set names))"
proof -
  from group_names_apply[OF assms(1)] obtain g where
    g: "group_names ms = Inr g"
    and g': "\<And>k. g k =
       (if filter (\<lambda>m. prop_key m = Inr k) ms = [] then None
        else Some (map modname (filter (\<lambda>m. prop_key m = Inr k) ms)))" by blast
  have "\<exists>names. g ''undefined'' = Some names \<and> modname m \<in> set names"
    if m: "m \<in> set ms" "stability m = JUndefined" for m
  proof -
    from m have "m \<in> set (filter (\<lambda>m. prop_key m = Inr ''undefined'') ms)"
      by (simp add: prop_key_def)
    then show ?thesis unfolding g'[of "''undefined''"] by (auto simp: filter_empty_conv)
  qed
  with g g' show ?thesis by blast
qed

theorem groups_by_property_name_witness:
  "group_names [\<lparr>modname = ''fs'', stability = JNum 3\<rparr>,
                \<lparr>modname = ''net'', stability = JNum 3\<rparr>,
                \<lparr>modname = ''vm'', stability = JNum 5\<rparr>] =
     Inr [''3'' \<mapsto> [''fs'', ''net''], ''5'' \<mapsto> [''vm'']] \<and>
   (\<exists>g. group_names [\<lparr>modname = ''tty'', stability = JUndefined\<rparr>,
                     \<lparr>modname = ''fs'', stability = JNum 3\<rparr>] = Inr g \<and>
        g ''undefined'' = Some [''tty''] \<and> g ''3'' = Some [''fs''])"
proof -
  let ?ms = "[\<lparr>modname = ''fs'', stability = JNum 3\<rparr>,
                \<lparr>modname = ''net'', stability = JNum 3\<rparr>,
                \<lparr>modname = ''vm'', stability = JNum 5\<rparr>]"
  let ?us = "[\<lparr>modname = ''tty'', stability = JUndefined\<rparr>,
                \<lparr>modname = ''fs'', stability = JNum 3\<rparr>]"
  have k: "prop_key \<lparr>modname = n, stability = JNum 3\<rparr> = Inr ''3''"
    "prop_key \<lparr>modname = n, stability = JNum 5\<rparr> = Inr ''5''"
    "prop_key \<lparr>modname = n, stability = JUndefined\<rparr> = Inr ''undefined''" for n
    by (simp_all add: prop_key_def string_of_int_def digit_char_def)
  have h: "\<forall>m \<in> set ?ms. \<exists>key. prop_key m = Inr key \<and> key \<noteq> ''__proto__''"
    by (simp add: k)
  have hu: "\<forall>m \<in> set ?us. \<exists>key. prop_key m = Inr key \<and> key \<noteq> ''__proto__''"
    by (simp add: k)
  have p: "\<forall>m \<in> set ?ms. plain_numbers (stability m)" by simp
  have pu: "\<forall>m \<in> set ?us. plain_numbers (stability m)" by simp
  from groups_by_property_name[OF h p] obtain g where
    g: "group_names ?ms = Inr g"
    and g': "\<And>k. g k =
       (if filter (\<lambda>m. prop_key m = Inr k) ?ms = [] then None
        else Some (map modname (filter (\<lambda>m. prop_key m = Inr k) ?ms)))" by blast
  have "g = [''3'' \<mapsto> [''fs'', ''net''], ''5'' \<mapsto> [''vm'']]"
  proof
    fix x
    show "g x = [''3'' \<mapsto> [''fs'', ''net''], ''5'' \<mapsto> [''vm'']] x"
      unfolding g'[of x] by (auto simp add: k)
  qed
  with g have 1: "group_names ?ms = Inr [''3'' \<mapsto> [''fs'', ''net''], ''5'' \<mapsto> [''vm'']]"
    by simp
  from groups_by_property_name[OF hu pu] obtain gu where
    gu: "group_names ?us = Inr gu"
    and gu': "\<And>k. gu k =
       (if filter (\<lambda>m. prop_key m = Inr k) ?us = [] then None
        else Some (map modname (filter (\<lambda>m. prop_key m = Inr k) ?us)))" by blast
  have "gu ''undefined'' = Some [''tty'']" "gu ''3'' = Some [''fs'']"
    unfolding gu' by (simp_all add: k)
  with gu have 2: "\<exists>g. group_names ?us = Inr g \<and>
        g ''undefined'' = Some [''tty''] \<and> g ''3'' = Some [''fs'']" by blast
  from 1 2 show ?thesis by (rule conjI)
qed

subsection \<open>C7: determinism\<close>

text \<open>
  Claim C7: the transform-and-aggregate stage is deterministic. The grouped result of a
  run depends on the input sequence only, not on the global variable an earlier run left
  behind: two runs on the same input give the same keys, the same groups and the same
  order of names, and so does a second run after a first.
\<close>

theorem grouping_is_deterministic:
  "snd (mod_datas2stability_to_names g1 mod_datas) =
   snd (mod_datas2stability_to_names g2 mod_datas) \<and>
   snd (mod_datas2stability_to_names (fst (mod_datas2stability_to_names g1 mod_datas)) mod_datas) =
   snd (mod_datas2stability_to_names g1 mod_datas)"
  by (simp add: mod_datas2stability_to_names_def split: sum.splits)

subsection \<open>C8: a ceiling of zero\<close>

text \<open>
  Claim C8: the executor invoked with the ceiling 0 fails with \<open>InvalidConfig\<close>, for
  every list of tasks and every schedule: no task is dispatched and there is no partial
  result. \<open>mod_urls2mod_datas\<close> itself passes the ceiling 36 and never meets this error.
\<close>

theorem zero_ceiling_is_invalid_config:
  "bounded_executor 0 tasks sched = Inl InvalidConfig \<and>
   mod_urls2mod_datas JSON_parse request mod_urls sched \<noteq> Inl InvalidConfig"
  by (simp add: bounded_executor_def mod_urls2mod_datas_def NUM_SIMULTANEOUS_DOWNLOADS_def
      run_not_invalid_config)

subsection \<open>C10: conservation\<close>

text \<open>
  Claim C10 says that every record's name is in exactly one group. A record whose
  stability is the string \<open>__proto__\<close> is lost: the object printed is empty. For every
  input whose keys have property names other than that one, the numbers in them being
  safe integers, the names are conserved (\<open>group_names_conserves\<close>).
\<close>

theorem proto_key_record_is_dropped:
  "mod_datas2stability_to_names \<lparr>modname_stabilities = None\<rparr>
     [JObj [(''source'', JStr ''doc/api/fs.markdown''), (''stability'', JStr ''__proto__'')]] =
   (\<lparr>modname_stabilities = Some [\<lparr>modname = ''fs'', stability = JStr ''__proto__''\<rparr>]\<rparr>,
    Inr Map.empty)"
  by (simp add: mod_datas2stability_to_names_def mod_data2modname_stability_def bindE_def
      name_at_def dot_markdown_def is_word_def stability_try_def caught_def
      group_names_def group_step_def assign_def prop_key_def)

end
